theory Spec2Isabelle
  imports Main
begin

section \<open>Strings: the Python string operations the converter relies on\<close>

text \<open>
  A Python \<open>str\<close> is modelled as a \<open>string\<close>, one \<open>char\<close> per code point (code points
  below 256). The functions of this section are the library operations the source calls:
  \<open>startswith\<close>, \<open>endswith\<close>, \<open>split\<close>, \<open>strip\<close>, \<open>lstrip(chars)\<close>, \<open>join\<close>, \<open>replace\<close>
  and the decimal formatting of an f-string.
\<close>

abbreviation NL :: char where
  "NL \<equiv> CHR 0x0A"

fun startswith :: "string \<Rightarrow> string \<Rightarrow> bool" where
  "startswith s [] = True"
| "startswith [] (p # ps) = False"
| "startswith (c # cs) (p # ps) = (c = p \<and> startswith cs ps)"

definition endswith :: "string \<Rightarrow> string \<Rightarrow> bool" where
  "endswith s p = startswith (rev s) (rev p)"

text \<open>
  \<open>s.split(sep)\<close> for a non-empty separator: the occurrences of \<open>sep\<close> are found from left
  to right and do not overlap; the result always has at least one part. Every separator
  the source passes is a non-empty literal (Python raises on an empty one; here an empty
  separator is never matched).
\<close>

function py_split :: "string \<Rightarrow> string \<Rightarrow> string list" where
  "py_split sep [] = [[]]"
| "py_split sep (c # cs) =
     (if sep \<noteq> [] \<and> startswith (c # cs) sep
      then [] # py_split sep (drop (length sep) (c # cs))
      else (case py_split sep cs of [] \<Rightarrow> [[c]] | p # ps \<Rightarrow> (c # p) # ps))"
  by pat_completeness auto
termination
  by (relation "measure (\<lambda>(sep, s). length s)") auto

text \<open>\<open>s.split(sep, 1)\<close>: the text before and after the first occurrence, if there is one.\<close>

fun split_once :: "string \<Rightarrow> string \<Rightarrow> (string \<times> string) option" where
  "split_once sep [] = None"
| "split_once sep (c # cs) =
     (if startswith (c # cs) sep then Some ([], drop (length sep) (c # cs))
      else (case split_once sep cs of None \<Rightarrow> None | Some (b, a) \<Rightarrow> Some (c # b, a)))"

text \<open>\<open>sep.join(parts)\<close>.\<close>

fun join :: "string \<Rightarrow> string list \<Rightarrow> string" where
  "join sep [] = []"
| "join sep [x] = x"
| "join sep (x # y # ys) = x @ sep @ join sep (y # ys)"

text \<open>
  The characters \<open>str.strip()\<close> removes: the code points below 256 for which Python's
  \<open>str.isspace\<close> holds (tab, the line breaks, the separators 0x1C to 0x1F, the space, NEL
  and the no-break space).
\<close>

definition isspace :: "char \<Rightarrow> bool" where
  "isspace c = (c \<in> set [CHR 0x09, CHR 0x0A, CHR 0x0B, CHR 0x0C, CHR 0x0D,
                         CHR 0x1C, CHR 0x1D, CHR 0x1E, CHR 0x1F, CHR 0x20,
                         CHR 0x85, CHR 0xA0])"

definition lstrip_chars :: "string \<Rightarrow> string \<Rightarrow> string" where
  "lstrip_chars chars s = dropWhile (\<lambda>c. c \<in> set chars) s"

definition strip_chars :: "string \<Rightarrow> string \<Rightarrow> string" where
  "strip_chars chars s =
     rev (dropWhile (\<lambda>c. c \<in> set chars) (rev (dropWhile (\<lambda>c. c \<in> set chars) s)))"

definition strip :: "string \<Rightarrow> string" where
  "strip s = rev (dropWhile isspace (rev (dropWhile isspace s)))"

text \<open>\<open>s.replace(old, new)\<close> for single characters.\<close>

definition replace_char :: "char \<Rightarrow> char \<Rightarrow> string \<Rightarrow> string" where
  "replace_char old new s = map (\<lambda>c. if c = old then new else c) s"

text \<open>\<open>s.find(c)\<close> for a single character: the index of the first occurrence, if any.\<close>

fun find_char :: "char \<Rightarrow> string \<Rightarrow> nat option" where
  "find_char x [] = None"
| "find_char x (c # cs) =
     (if c = x then Some 0 else (case find_char x cs of None \<Rightarrow> None | Some i \<Rightarrow> Some (Suc i)))"

text \<open>The decimal digits of a natural number, as \<open>f"{n}"\<close> prints them.\<close>

definition digit_char :: "nat \<Rightarrow> char" where
  "digit_char d = ''0123456789'' ! d"

function str_nat :: "nat \<Rightarrow> string" where
  "str_nat n = (if n < 10 then [digit_char n] else str_nat (n div 10) @ [digit_char (n mod 10)])"
  by pat_completeness auto
termination
  by (relation "measure id") auto

declare str_nat.simps [simp del]

section \<open>htmlnode.py: the node model and its rendering\<close>

text \<open>
  Every failure of the source is a \<open>ValueError\<close>; the constructors name the raise sites
  after the error kinds of the specification:
  \<^item> \<open>InvalidNode msg\<close>: the three \<open>ValueError("Invalid HTML: ...")\<close> of \<open>to_html\<close>;
  \<^item> \<open>MalformedInline delimiter text\<close>: the unmatched delimiter of \<open>split_nodes_delimiter\<close>;
  \<^item> \<open>NoTitleFound\<close>: \<open>extract_title\<close> without a level-1 heading;
  \<^item> \<open>InvalidCodeBlock\<close>: \<open>code_block_to_html_node\<close> on a block without fences;
  \<^item> \<open>InvalidTextNode msg\<close>: \<open>text_node_to_html_node\<close> on a link or image without URL.
\<close>

datatype error =
    InvalidNode string
  | MalformedInline string string
  | NoTitleFound
  | InvalidCodeBlock
  | InvalidTextNode string

text \<open>
  \<open>props\<close> is an optional dictionary; Python dictionaries keep insertion order, which the
  rendering shows, so it is an association list.
\<close>

type_synonym props = "(string \<times> string) list option"

text \<open>
  \<open>LeafNode(value, tag, props)\<close> and \<open>ParentNode(tag, children, props)\<close>; each argument may
  be \<open>None\<close>, which the constructors of the source do not reject.
\<close>

datatype HTMLNode =
    LeafNode "string option" "string option" props
  | ParentNode "string option" "HTMLNode list option" props

fun attr_to_html :: "string \<times> string \<Rightarrow> string" where
  "attr_to_html (key, val) = key @ ''=\"'' @ val @ ''\"''"

fun props_to_html :: "props \<Rightarrow> string" where
  "props_to_html None = []"
| "props_to_html (Some []) = []"
| "props_to_html (Some (p # ps)) = '' '' @ join '' '' (map attr_to_html (p # ps))"

text \<open>
  The loop \<open>for child in self.children: html_content += child.to_html()\<close>: the first child
  that raises ends the rendering.
\<close>

fun concat_html :: "string \<Rightarrow> (error + string) list \<Rightarrow> error + string" where
  "concat_html acc [] = Inr acc"
| "concat_html acc (Inl e # rs) = Inl e"
| "concat_html acc (Inr s # rs) = concat_html (acc @ s) rs"

fun to_html :: "HTMLNode \<Rightarrow> error + string" where
  "to_html (LeafNode None tag props) =
     Inl (InvalidNode ''Invalid HTML: LeafNode requires a value.'')"
| "to_html (LeafNode (Some v) None props) = Inr v"
| "to_html (LeafNode (Some v) (Some t) props) =
     Inr (''<'' @ t @ props_to_html props @ ''>'' @ v @ ''</'' @ t @ ''>'')"
| "to_html (ParentNode None children props) =
     Inl (InvalidNode ''Invalid HTML: ParentNode requires a tag.'')"
| "to_html (ParentNode (Some t) children props) =
     (if t = [] then Inl (InvalidNode ''Invalid HTML: ParentNode requires a tag.'')
      else case children of
        None \<Rightarrow> Inl (InvalidNode ''Invalid HTML: ParentNode requires children.'')
      | Some kids \<Rightarrow>
          (case concat_html (''<'' @ t @ props_to_html props @ ''>'') (map to_html kids) of
             Inl e \<Rightarrow> Inl e
           | Inr body \<Rightarrow> Inr (body @ ''</'' @ t @ ''>'')))"

section \<open>textnode.py: spans\<close>

datatype TextType = TEXT | BOLD | ITALIC | CODE | LINK | IMAGE

text \<open>\<open>TextNode(text, text_type, url=None)\<close>.\<close>

datatype TextNode = TextNode (node_text: string) (text_type: TextType) (url: "string option")

fun text_node_to_html_node :: "TextNode \<Rightarrow> error + HTMLNode" where
  "text_node_to_html_node (TextNode t TEXT u) = Inr (LeafNode (Some t) None None)"
| "text_node_to_html_node (TextNode t BOLD u) = Inr (LeafNode (Some t) (Some ''b'') None)"
| "text_node_to_html_node (TextNode t ITALIC u) = Inr (LeafNode (Some t) (Some ''i'') None)"
| "text_node_to_html_node (TextNode t CODE u) = Inr (LeafNode (Some t) (Some ''code'') None)"
| "text_node_to_html_node (TextNode t LINK None) =
     Inl (InvalidTextNode ''Invalid TextNode: Link type requires a URL.'')"
| "text_node_to_html_node (TextNode t LINK (Some u)) =
     Inr (LeafNode (Some t) (Some ''a'') (Some [(''href'', u)]))"
| "text_node_to_html_node (TextNode t IMAGE None) =
     Inl (InvalidTextNode ''Invalid TextNode: Image type requires a URL (src).'')"
| "text_node_to_html_node (TextNode t IMAGE (Some u)) =
     Inr (LeafNode (Some []) (Some ''img'') (Some [(''src'', u), (''alt'', t)]))"

section \<open>inline\_markdown.py: the tokenizer\<close>

subsection \<open>Delimiter splitting\<close>

text \<open>
  The inner loop \<open>for i, part in enumerate(split_parts)\<close>: empty parts are skipped, parts
  at even positions stay TEXT, parts at odd positions take the type of the delimiter.
\<close>

fun parts_to_nodes :: "nat \<Rightarrow> string list \<Rightarrow> TextType \<Rightarrow> TextNode list" where
  "parts_to_nodes i [] tt = []"
| "parts_to_nodes i (part # parts) tt =
     (if part = [] then parts_to_nodes (Suc i) parts tt
      else (if i mod 2 = 0 then TextNode part TEXT None else TextNode part tt None)
             # parts_to_nodes (Suc i) parts tt)"

fun split_nodes_delimiter :: "TextNode list \<Rightarrow> string \<Rightarrow> TextType \<Rightarrow> error + TextNode list" where
  "split_nodes_delimiter [] delimiter tt = Inr []"
| "split_nodes_delimiter (old_node # old_nodes) delimiter tt =
     (if text_type old_node \<noteq> TEXT then
        (case split_nodes_delimiter old_nodes delimiter tt of
           Inl e \<Rightarrow> Inl e | Inr new_nodes \<Rightarrow> Inr (old_node # new_nodes))
      else
        (let split_parts = py_split delimiter (node_text old_node) in
         if length split_parts mod 2 = 0 then
           (if length split_parts > 1 then Inl (MalformedInline delimiter (node_text old_node))
            else (case split_nodes_delimiter old_nodes delimiter tt of
                    Inl e \<Rightarrow> Inl e | Inr new_nodes \<Rightarrow> Inr (old_node # new_nodes)))
         else
           (case split_nodes_delimiter old_nodes delimiter tt of
              Inl e \<Rightarrow> Inl e
            | Inr new_nodes \<Rightarrow> Inr (parts_to_nodes 0 split_parts tt @ new_nodes))))"

subsection \<open>Images and links\<close>

text \<open>
  The regular expression \<open>\[([^\[\]]*)\]\(([^\(\)]*)\)\<close> matched at the start of a string.
  Each starred class excludes the character that has to follow it, so the greedy match is
  the only one: the first group is the longest run without brackets, the second the longest
  run without parentheses. The result is the two groups and the text after the match.
\<close>

definition not_bracket :: "char \<Rightarrow> bool" where
  "not_bracket c = (c \<noteq> CHR ''['' \<and> c \<noteq> CHR '']'')"

definition not_paren :: "char \<Rightarrow> bool" where
  "not_paren c = (c \<noteq> CHR ''('' \<and> c \<noteq> CHR '')'')"

fun match_paren :: "string \<Rightarrow> string \<Rightarrow> (string \<times> string \<times> string) option" where
  "match_paren g1 s =
     (case dropWhile not_paren s of
        [] \<Rightarrow> None
      | c # rest \<Rightarrow> if c = CHR '')'' then Some (g1, takeWhile not_paren s, rest) else None)"

fun match_bracket :: "string \<Rightarrow> (string \<times> string \<times> string) option" where
  "match_bracket [] = None"
| "match_bracket (c # cs) =
     (if c = CHR ''['' \<and> startswith (dropWhile not_bracket cs) ''](''
      then match_paren (takeWhile not_bracket cs) (drop 2 (dropWhile not_bracket cs))
      else None)"

text \<open>The image pattern is the same with a leading \<open>!\<close>.\<close>

fun match_image :: "string \<Rightarrow> (string \<times> string \<times> string) option" where
  "match_image [] = None"
| "match_image (c # cs) = (if c = CHR ''!'' then match_bracket cs else None)"

text \<open>
  A match consumes at least its delimiters, so the search below it terminates.
\<close>

lemma match_paren_shorter:
  assumes "match_paren g s = Some (a, u, rest)"
  shows "length rest < length s"
proof -
  from assms obtain c where "dropWhile not_paren s = c # rest"
    by (auto split: list.splits if_splits)
  moreover have "length (dropWhile not_paren s) \<le> length s"
    by (rule length_dropWhile_le)
  ultimately show ?thesis by simp
qed

lemma match_bracket_shorter:
  assumes "match_bracket s = Some (a, u, rest)"
  shows "length rest < length s"
proof (cases s)
  case Nil
  with assms show ?thesis by simp
next
  case (Cons c cs)
  with assms have
    "match_paren (takeWhile not_bracket cs) (drop 2 (dropWhile not_bracket cs)) = Some (a, u, rest)"
    by (simp split: if_splits)
  then have "length rest < length (drop 2 (dropWhile not_bracket cs))"
    by (rule match_paren_shorter)
  moreover have "length (dropWhile not_bracket cs) \<le> length cs"
    by (rule length_dropWhile_le)
  ultimately show ?thesis using Cons by simp
qed

lemma match_image_shorter:
  "match_image s = Some (a, u, rest) \<Longrightarrow> length rest < length s"
  by (cases s) (auto simp del: match_bracket.simps split: if_splits dest!: match_bracket_shorter)

text \<open>
  \<open>re.findall\<close> with the image pattern: the matches from left to right, each search
  resuming where the previous match ended, as pairs (alt text, URL).
\<close>

function extract_markdown_images :: "string \<Rightarrow> (string \<times> string) list" where
  "extract_markdown_images [] = []"
| "extract_markdown_images (c # cs) =
     (case match_image (c # cs) of
        Some (alt, u, rest) \<Rightarrow> (alt, u) # extract_markdown_images rest
      | None \<Rightarrow> extract_markdown_images cs)"
  by pat_completeness auto
termination
  by (relation "measure length")
     (auto simp del: match_image.simps dest!: match_image_shorter)

text \<open>
  \<open>re.findall\<close> with the link pattern. The lookbehind \<open>(?<!\!)\<close> reads the character
  before the position tried, \<open>prev\<close>: none at the start of the text, and the closing
  parenthesis of the previous match right after one.
\<close>

function links_from :: "char option \<Rightarrow> string \<Rightarrow> (string \<times> string) list" where
  "links_from prev [] = []"
| "links_from prev (c # cs) =
     (if prev = Some (CHR ''!'') then links_from (Some c) cs
      else (case match_bracket (c # cs) of
              Some (anchor, u, rest) \<Rightarrow> (anchor, u) # links_from (Some (CHR '')'')) rest
            | None \<Rightarrow> links_from (Some c) cs))"
  by pat_completeness auto
termination
  by (relation "measure (\<lambda>(p, s). length s)")
     (auto simp del: match_bracket.simps dest!: match_bracket_shorter)

definition extract_markdown_links :: "string \<Rightarrow> (string \<times> string) list" where
  "extract_markdown_links s = links_from None s"

text \<open>
  The loop \<open>for alt, url in images\<close> of \<open>split_nodes_image\<close> over one TEXT node, together
  with the \<open>if text_to_process\<close> that follows it. The result is what the loop appends to
  \<open>new_nodes\<close>. A \<open>break\<close> empties \<open>text_to_process\<close>, so nothing follows it.
\<close>

fun image_sections :: "(string \<times> string) list \<Rightarrow> string \<Rightarrow> TextNode list" where
  "image_sections [] text_to_process =
     (if text_to_process \<noteq> [] then [TextNode text_to_process TEXT None] else [])"
| "image_sections ((alt, u) # images) text_to_process =
     (let markdown_image = ''!['' @ alt @ '']('' @ u @ '')'' in
      case split_once markdown_image text_to_process of
        None \<Rightarrow>
          (if text_to_process = markdown_image then [TextNode alt IMAGE (Some u)]
           else if text_to_process \<noteq> [] then [TextNode text_to_process TEXT None]
           else [])
      | Some (text_before, text_after) \<Rightarrow>
          (if text_before \<noteq> [] then [TextNode text_before TEXT None] else [])
          @ TextNode alt IMAGE (Some u) # image_sections images text_after)"

fun split_nodes_image :: "TextNode list \<Rightarrow> TextNode list" where
  "split_nodes_image [] = []"
| "split_nodes_image (old_node # old_nodes) =
     (if text_type old_node \<noteq> TEXT then old_node # split_nodes_image old_nodes
      else
        (let images = extract_markdown_images (node_text old_node) in
         if images = [] then
           (if node_text old_node \<noteq> [] then old_node # split_nodes_image old_nodes
            else split_nodes_image old_nodes)
         else image_sections images (node_text old_node) @ split_nodes_image old_nodes))"

fun link_sections :: "(string \<times> string) list \<Rightarrow> string \<Rightarrow> TextNode list" where
  "link_sections [] text_to_process =
     (if text_to_process \<noteq> [] then [TextNode text_to_process TEXT None] else [])"
| "link_sections ((anchor, u) # links) text_to_process =
     (let markdown_link = ''['' @ anchor @ '']('' @ u @ '')'' in
      case split_once markdown_link text_to_process of
        None \<Rightarrow>
          (if text_to_process = markdown_link then [TextNode anchor LINK (Some u)]
           else if text_to_process \<noteq> [] then [TextNode text_to_process TEXT None]
           else [])
      | Some (text_before, text_after) \<Rightarrow>
          (if text_before \<noteq> [] then [TextNode text_before TEXT None] else [])
          @ TextNode anchor LINK (Some u) # link_sections links text_after)"

fun split_nodes_link :: "TextNode list \<Rightarrow> TextNode list" where
  "split_nodes_link [] = []"
| "split_nodes_link (old_node # old_nodes) =
     (if text_type old_node \<noteq> TEXT then old_node # split_nodes_link old_nodes
      else
        (let links = extract_markdown_links (node_text old_node) in
         if links = [] then
           (if node_text old_node \<noteq> [] then old_node # split_nodes_link old_nodes
            else split_nodes_link old_nodes)
         else link_sections links (node_text old_node) @ split_nodes_link old_nodes))"

subsection \<open>The pipeline\<close>

definition text_to_textnodes :: "string \<Rightarrow> error + TextNode list" where
  "text_to_textnodes txt =
     (let nodes = split_nodes_link (split_nodes_image [TextNode txt TEXT None]) in
      case split_nodes_delimiter nodes ''**'' BOLD of
        Inl e \<Rightarrow> Inl e
      | Inr nodes1 \<Rightarrow>
          (case split_nodes_delimiter nodes1 ''_'' ITALIC of
             Inl e \<Rightarrow> Inl e
           | Inr nodes2 \<Rightarrow> split_nodes_delimiter nodes2 ''`'' CODE))"

section \<open>block\_markdown.py: blocks\<close>

text \<open>
  The members of the enumeration \<open>BlockType\<close>; \<open>CODE\<close> and \<open>QUOTE\<close> carry a suffix, since
  \<open>CODE\<close> is already a member of \<open>TextType\<close>.
\<close>

datatype BlockType =
  PARAGRAPH | HEADING | CODE_BLOCK | QUOTE_BLOCK | UNORDERED_LIST | ORDERED_LIST

subsection \<open>Segmentation\<close>

fun filter_blocks :: "string list \<Rightarrow> string list" where
  "filter_blocks [] = []"
| "filter_blocks (block # raw_blocks) =
     (if block = [] then filter_blocks raw_blocks
      else (let stripped_block = strip block in
            if stripped_block \<noteq> [] then stripped_block # filter_blocks raw_blocks
            else filter_blocks raw_blocks))"

definition markdown_to_blocks :: "string \<Rightarrow> string list" where
  "markdown_to_blocks markdown = filter_blocks (py_split [NL, NL] markdown)"

subsection \<open>Classification\<close>

text \<open>
  \<open>re.match(r"^#{1,6} ", line)\<close>: one to six \<open>#\<close> and then a space. The greedy run of
  \<open>#\<close> cannot give a character back to the space, so the match exists exactly when the
  line starts with one to six \<open>#\<close> and the next character is a space.
\<close>

definition heading_match :: "string \<Rightarrow> bool" where
  "heading_match line =
     (let level = length (takeWhile (\<lambda>c. c = CHR ''#'') line) in
      1 \<le> level \<and> level \<le> 6 \<and> startswith (drop level line) '' '')"

text \<open>
  The loop of the ordered-list check: line by line, the prefix \<open>f"{expected_number}. "\<close>
  with \<open>expected_number\<close> counting up.
\<close>

fun all_lines_ol :: "nat \<Rightarrow> string list \<Rightarrow> bool" where
  "all_lines_ol expected_number [] = True"
| "all_lines_ol expected_number (line # lines) =
     (startswith line (str_nat expected_number @ ''. '')
      \<and> all_lines_ol (Suc expected_number) lines)"

text \<open>
  \<open>lines\<close> is the result of a \<open>split\<close> and so never empty (\<open>py_split_not_Nil\<close> below);
  \<open>lines[0]\<close> is its head.
\<close>

definition block_to_block_type :: "string \<Rightarrow> BlockType" where
  "block_to_block_type block =
     (let lines = py_split [NL] block in
      if heading_match (hd lines) then HEADING
      else if length block > 6 \<and> startswith block ''```'' \<and> endswith block ''```''
        then CODE_BLOCK
      else if lines \<noteq> [] \<and> list_all (\<lambda>line. startswith line ''>'') lines
        then QUOTE_BLOCK
      else if lines \<noteq> []
              \<and> list_all (\<lambda>line. startswith line ''* '' \<or> startswith line ''- '') lines
        then UNORDERED_LIST
      else if lines \<noteq> [] \<and> all_lines_ol 1 lines then ORDERED_LIST
      else PARAGRAPH)"

subsection \<open>Conversion of a block to a node\<close>

text \<open>A loop that collects results and stops at the first failure.\<close>

fun collect :: "(error + 'a) list \<Rightarrow> error + 'a list" where
  "collect [] = Inr []"
| "collect (Inl e # rs) = Inl e"
| "collect (Inr x # rs) = (case collect rs of Inl e \<Rightarrow> Inl e | Inr xs \<Rightarrow> Inr (x # xs))"

definition text_to_children :: "string \<Rightarrow> error + HTMLNode list" where
  "text_to_children txt =
     (case text_to_textnodes txt of
        Inl e \<Rightarrow> Inl e
      | Inr text_nodes \<Rightarrow> collect (map text_node_to_html_node text_nodes))"

text \<open>\<open>ParentNode(tag, children)\<close> around the children of a text, if the text tokenizes.\<close>

definition wrap_children :: "string \<Rightarrow> string \<Rightarrow> error + HTMLNode" where
  "wrap_children tag txt =
     (case text_to_children txt of
        Inl e \<Rightarrow> Inl e
      | Inr children \<Rightarrow> Inr (ParentNode (Some tag) (Some children) None))"

definition paragraph_block_to_html_node :: "string \<Rightarrow> error + HTMLNode" where
  "paragraph_block_to_html_node block = wrap_children ''p'' (replace_char NL (CHR '' '') block)"

definition heading_block_to_html_node :: "string \<Rightarrow> error + HTMLNode" where
  "heading_block_to_html_node block =
     (let first_line = hd (py_split [NL] block);
          level = length (takeWhile (\<lambda>c. c = CHR ''#'') first_line);
          content = strip (drop (level + 1) first_line)
      in wrap_children (''h'' @ str_nat level) content)"

text \<open>The slice \<open>block[3:-3]\<close>, for a block of any length.\<close>

definition fence_stripped :: "string \<Rightarrow> string" where
  "fence_stripped block = drop 3 (take (length block - 3) block)"

definition code_block_to_html_node :: "string \<Rightarrow> error + HTMLNode" where
  "code_block_to_html_node block =
     (if \<not> startswith block ''```'' \<or> \<not> endswith block ''```'' then Inl InvalidCodeBlock
      else (let content = strip_chars [NL] (fence_stripped block) in
            Inr (ParentNode (Some ''pre'')
                   (Some [LeafNode (Some content) (Some ''code'') None]) None)))"

definition quote_content :: "string \<Rightarrow> string" where
  "quote_content block =
     join [NL] (map (\<lambda>line. lstrip_chars ''>'' (lstrip_chars ''> '' line)) (py_split [NL] block))"

definition quote_block_to_html_node :: "string \<Rightarrow> error + HTMLNode" where
  "quote_block_to_html_node block = wrap_children ''blockquote'' (quote_content block)"

fun ul_items :: "string list \<Rightarrow> error + HTMLNode list" where
  "ul_items [] = Inr []"
| "ul_items (line # lines) =
     (if line = [] then ul_items lines
      else (case wrap_children ''li'' (drop 2 line) of
              Inl e \<Rightarrow> Inl e
            | Inr item \<Rightarrow>
                (case ul_items lines of Inl e \<Rightarrow> Inl e | Inr items \<Rightarrow> Inr (item # items))))"

definition unordered_list_block_to_html_node :: "string \<Rightarrow> error + HTMLNode" where
  "unordered_list_block_to_html_node block =
     (case ul_items (py_split [NL] block) of
        Inl e \<Rightarrow> Inl e
      | Inr list_items \<Rightarrow> Inr (ParentNode (Some ''ul'') (Some list_items) None))"

fun ol_items :: "string list \<Rightarrow> error + HTMLNode list" where
  "ol_items [] = Inr []"
| "ol_items (line # lines) =
     (if line = [] then ol_items lines
      else (case find_char (CHR '' '') line of
              None \<Rightarrow> ol_items lines
            | Some first_space_index \<Rightarrow>
                (case wrap_children ''li'' (drop (first_space_index + 1) line) of
                   Inl e \<Rightarrow> Inl e
                 | Inr item \<Rightarrow>
                     (case ol_items lines of
                        Inl e \<Rightarrow> Inl e | Inr items \<Rightarrow> Inr (item # items)))))"

definition ordered_list_block_to_html_node :: "string \<Rightarrow> error + HTMLNode" where
  "ordered_list_block_to_html_node block =
     (case ol_items (py_split [NL] block) of
        Inl e \<Rightarrow> Inl e
      | Inr list_items \<Rightarrow> Inr (ParentNode (Some ''ol'') (Some list_items) None))"

subsection \<open>The document\<close>

definition block_to_html_node :: "string \<Rightarrow> error + HTMLNode" where
  "block_to_html_node block =
     (case block_to_block_type block of
        PARAGRAPH \<Rightarrow> paragraph_block_to_html_node block
      | HEADING \<Rightarrow> heading_block_to_html_node block
      | CODE_BLOCK \<Rightarrow> code_block_to_html_node block
      | QUOTE_BLOCK \<Rightarrow> quote_block_to_html_node block
      | UNORDERED_LIST \<Rightarrow> unordered_list_block_to_html_node block
      | ORDERED_LIST \<Rightarrow> ordered_list_block_to_html_node block)"

definition markdown_to_html_node :: "string \<Rightarrow> error + HTMLNode" where
  "markdown_to_html_node markdown =
     (case collect (map block_to_html_node (markdown_to_blocks markdown)) of
        Inl e \<Rightarrow> Inl e
      | Inr children_nodes \<Rightarrow> Inr (ParentNode (Some ''div'') (Some children_nodes) None))"

fun first_title :: "string list \<Rightarrow> error + string" where
  "first_title [] = Inl NoTitleFound"
| "first_title (line # lines) =
     (let stripped_line = strip line in
      if startswith stripped_line ''# '' then Inr (strip (drop 2 stripped_line))
      else first_title lines)"

definition extract_title :: "string \<Rightarrow> error + string" where
  "extract_title markdown = first_title (py_split [NL] markdown)"

text \<open>A rendering that raised the \<open>ValueError\<close> of an invalid node.\<close>

fun raises_InvalidNode :: "error + string \<Rightarrow> bool" where
  "raises_InvalidNode (Inl (InvalidNode msg)) = True"
| "raises_InvalidNode r = False"

text \<open>
  The ordered-list condition as the specification words it: the lines start with
  \<open>1. \<close>, \<open>2. \<close>, \<open>3. \<close> and so on, line \<open>i\<close> (counted from 0) with the number \<open>i + 1\<close>.
\<close>

definition ordered_lines :: "string list \<Rightarrow> bool" where
  "ordered_lines ls = (\<forall>i < length ls. startswith (ls ! i) (str_nat (i + 1) @ ''. ''))"

text \<open>
  The invariant of a span: the target is present exactly for the kinds LINK and IMAGE.
\<close>

definition target_ok :: "TextNode \<Rightarrow> bool" where
  "target_ok n = ((url n \<noteq> None) = (text_type n = LINK \<or> text_type n = IMAGE))"

text \<open>
  The number of occurrences of a delimiter in a text, counted as \<open>str.count\<close> and
  \<open>str.split\<close> find them: from left to right, without overlap.
\<close>

function count_occ :: "string \<Rightarrow> string \<Rightarrow> nat" where
  "count_occ sep [] = 0"
| "count_occ sep (c # cs) =
     (if sep \<noteq> [] \<and> startswith (c # cs) sep
      then Suc (count_occ sep (drop (length sep) (c # cs)))
      else count_occ sep cs)"
  by pat_completeness auto
termination
  by (relation "measure (\<lambda>(sep, s). length s)") auto

text \<open>
  A TEXT span that a delimiter splits into an even number of parts.
\<close>

definition unmatched :: "string \<Rightarrow> TextNode \<Rightarrow> bool" where
  "unmatched delimiter n =
     (text_type n = TEXT \<and> length (py_split delimiter (node_text n)) mod 2 = 0)"

text \<open>
  The delimiter passes that \<open>text_to_textnodes\<close> runs on a text, each with the working
  list it receives; a pass that raises is the last one.
\<close>

definition delimiter_passes :: "string \<Rightarrow> (string \<times> TextNode list) list" where
  "delimiter_passes txt =
     (let nodes = split_nodes_link (split_nodes_image [TextNode txt TEXT None]) in
      (''**'', nodes) #
      (case split_nodes_delimiter nodes ''**'' BOLD of
         Inl e \<Rightarrow> []
       | Inr nodes1 \<Rightarrow>
           (''_'', nodes1) #
           (case split_nodes_delimiter nodes1 ''_'' ITALIC of
              Inl e \<Rightarrow> []
            | Inr nodes2 \<Rightarrow> [(''`'', nodes2)])))"

fun raises_MalformedInline :: "error + 'a \<Rightarrow> bool" where
  "raises_MalformedInline (Inl (MalformedInline delimiter txt)) = True"
| "raises_MalformedInline r = False"

text \<open>A text with a blank line: two newlines in a row.\<close>

fun double_newline :: "string \<Rightarrow> bool" where
  "double_newline (a # b # cs) = ((a = NL \<and> b = NL) \<or> double_newline (b # cs))"
| "double_newline cs = False"

text \<open>
  A text that \<open>strip\<close> leaves as it is and does not empty: it starts and ends with a
  character that is not whitespace.
\<close>

definition trimmed :: "string \<Rightarrow> bool" where
  "trimmed b = (b \<noteq> [] \<and> \<not> isspace (hd b) \<and> \<not> isspace (last b))"

text \<open>The shape of a segmented block: trimmed and without blank line.\<close>

definition block_like :: "string \<Rightarrow> bool" where
  "block_like b = (trimmed b \<and> \<not> double_newline b)"

text \<open>
  The code content as the specification words it: one leading newline and one trailing
  newline are removed, where present, and no more.
\<close>

definition strip_one_newline :: "string \<Rightarrow> string" where
  "strip_one_newline s =
     (let s1 = (if startswith s [NL] then tl s else s)
      in if endswith s1 [NL] then butlast s1 else s1)"

text \<open>
  The quote line as the specification words it: a leading \<open>>\<close> and at most one space
  after it are removed, what follows stays.
\<close>

definition quote_marker_stripped :: "string \<Rightarrow> string" where
  "quote_marker_stripped line =
     (if startswith line ''> '' then drop 2 line
      else if startswith line ''>'' then drop 1 line
      else line)"

section \<open>Properties\<close>

subsection \<open>Facts about the string operations\<close>

lemma py_split_not_Nil: "py_split sep s \<noteq> []"
  by (induction sep s rule: py_split.induct) (auto split: list.splits)

subsection \<open>Rendering\<close>

text \<open>
  C7. Rendering a leaf without value raises the invalid-node error, whatever its tag and
  attributes. Rendering a parent raises it when the tag is \<open>None\<close> or the empty string
  (whatever the children), and when the children are \<open>None\<close> (whatever the tag). A parent
  with a non-empty tag \<open>t\<close> and the empty list of children renders to the opening tag,
  with its attributes, directly followed by the closing tag; without attributes that is
  \<open><t></t>\<close>.
\<close>

theorem to_html_invalid_node:
  "raises_InvalidNode (to_html (LeafNode None tag props))
   \<and> raises_InvalidNode (to_html (ParentNode None children props))
   \<and> raises_InvalidNode (to_html (ParentNode (Some []) children props))
   \<and> raises_InvalidNode (to_html (ParentNode tag None props))
   \<and> (t \<noteq> [] \<longrightarrow>
        to_html (ParentNode (Some t) (Some []) props)
          = Inr (''<'' @ t @ props_to_html props @ ''></'' @ t @ ''>'')
        \<and> to_html (ParentNode (Some t) (Some []) None) = Inr (''<'' @ t @ ''></'' @ t @ ''>'')
        \<and> to_html (ParentNode (Some t) (Some []) (Some [])) = Inr (''<'' @ t @ ''></'' @ t @ ''>''))"
proof -
  have "raises_InvalidNode (to_html (ParentNode tag None props))"
    by (cases tag) simp_all
  then show ?thesis by simp
qed

theorem to_html_invalid_node_witness:
  "''div'' \<noteq> []
   \<and> to_html (ParentNode (Some ''div'') (Some []) (Some [(''id'', ''x'')]))
       = Inr ''<div id=\"x\"></div>''
   \<and> to_html (ParentNode (Some ''div'') (Some []) None) = Inr ''<div></div>''
   \<and> raises_InvalidNode (to_html (ParentNode (Some ''div'') None None))
   \<and> raises_InvalidNode (to_html (LeafNode None (Some ''p'') None))"
  using to_html_invalid_node [of "Some ''p''" None "None" "''div''"]
    to_html_invalid_node [of "Some ''div''" "Some [(''id'', ''x'')]" "None" "''div''"]
  by simp

subsection \<open>The tokenizer\<close>

text \<open>
  C8. Tokenizing the empty string gives the empty list of spans: the image pass drops
  the empty TEXT node it starts from, and no later pass adds a node.
\<close>

theorem text_to_textnodes_empty:
  "text_to_textnodes [] = Inr [] \<and> text_to_textnodes [] \<noteq> Inr [TextNode [] TEXT None]"
  by (simp add: text_to_textnodes_def)

subsection \<open>The title\<close>

lemma first_title_find:
  "first_title ls =
     (case find (\<lambda>l. startswith (strip l) ''# '') ls of
        None \<Rightarrow> Inl NoTitleFound
      | Some l \<Rightarrow> Inr (strip (drop 2 (strip l))))"
  by (induction ls) (simp_all add: Let_def)

text \<open>
  C9. \<open>extract_title\<close> returns, for the first line whose trimmed form starts with
  \<open># \<close>, the trimmed rest of that trimmed line after its first two characters; it
  fails with \<open>NoTitleFound\<close> exactly when no line of the document has such a trimmed
  form. The text \<open>no heading here\<close> has no title.
\<close>

theorem extract_title_first_heading:
  "extract_title markdown =
     (case find (\<lambda>line. startswith (strip line) ''# '') (py_split [NL] markdown) of
        None \<Rightarrow> Inl NoTitleFound
      | Some line \<Rightarrow> Inr (strip (drop 2 (strip line))))
   \<and> (extract_title markdown = Inl NoTitleFound
        \<longleftrightarrow> (\<forall>line \<in> set (py_split [NL] markdown). \<not> startswith (strip line) ''# ''))
   \<and> extract_title ''no heading here'' = Inl NoTitleFound"
proof -
  have a: "extract_title markdown =
     (case find (\<lambda>line. startswith (strip line) ''# '') (py_split [NL] markdown) of
        None \<Rightarrow> Inl NoTitleFound
      | Some line \<Rightarrow> Inr (strip (drop 2 (strip line))))"
    by (simp add: extract_title_def first_title_find)
  have b: "extract_title markdown = Inl NoTitleFound
        \<longleftrightarrow> (\<forall>line \<in> set (py_split [NL] markdown). \<not> startswith (strip line) ''# '')"
    unfolding a by (auto simp: find_None_iff find_Some_iff split: option.splits)
  have c: "extract_title ''no heading here'' = Inl NoTitleFound"
    by (simp add: extract_title_def strip_def isspace_def)
  from a b c show ?thesis by blast
qed

theorem extract_title_first_heading_witness:
  "\<not> (\<exists>line \<in> set (py_split [NL] (''intro'' @ [NL] @ ''## sub'')).
        startswith (strip line) ''# '')
   \<and> extract_title (''intro'' @ [NL] @ ''## sub'') = Inl NoTitleFound
   \<and> extract_title (''intro'' @ [NL] @ '' # My Title '' @ [NL] @ ''# Second'')
       = Inr ''My Title''"
proof -
  have h: "\<forall>line \<in> set (py_split [NL] (''intro'' @ [NL] @ ''## sub'')).
             \<not> startswith (strip line) ''# ''"
    by (simp add: strip_def isspace_def)
  have "extract_title (''intro'' @ [NL] @ ''## sub'') = Inl NoTitleFound"
    using h extract_title_first_heading [of "''intro'' @ [NL] @ ''## sub''"] by blast
  moreover have
    "extract_title (''intro'' @ [NL] @ '' # My Title '' @ [NL] @ ''# Second'') = Inr ''My Title''"
    using extract_title_first_heading
            [of "''intro'' @ [NL] @ '' # My Title '' @ [NL] @ ''# Second''"]
    by (simp add: strip_def isspace_def)
  ultimately show ?thesis using h by blast
qed

subsection \<open>Blank documents\<close>

lemma py_split_chars:
  "p \<in> set (py_split sep s) \<Longrightarrow> set p \<subseteq> set s"
proof (induction sep s arbitrary: p rule: py_split.induct)
  case (1 sep)
  then show ?case by simp
next
  case (2 sep c cs)
  show ?case
  proof (cases "sep \<noteq> [] \<and> startswith (c # cs) sep")
    case True
    with "2.prems" have "p = [] \<or> p \<in> set (py_split sep (drop (length sep) (c # cs)))"
      by auto
    then show ?thesis
    proof
      assume "p = []" then show ?thesis by simp
    next
      assume "p \<in> set (py_split sep (drop (length sep) (c # cs)))"
      with "2.IH"(1) True have "set p \<subseteq> set (drop (length sep) (c # cs))" by blast
      also have "\<dots> \<subseteq> set (c # cs)" by (rule set_drop_subset)
      finally show ?thesis .
    qed
  next
    case False
    obtain q qs where q: "py_split sep cs = q # qs"
      using py_split_not_Nil [of sep cs] by (cases "py_split sep cs") auto
    with False "2.prems" have "p = c # q \<or> p \<in> set qs" by auto
    moreover have "set q \<subseteq> set cs" using "2.IH"(2) False q by simp
    moreover have "p \<in> set qs \<Longrightarrow> set p \<subseteq> set cs" using "2.IH"(2) False q by simp
    ultimately show ?thesis by auto
  qed
qed

lemma strip_all_space:
  assumes "\<forall>c \<in> set s. isspace c"
  shows "strip s = []"
proof -
  from assms have h: "dropWhile isspace s = []" by simp
  show ?thesis unfolding strip_def h by simp
qed

lemma filter_blocks_all_space:
  "\<forall>b \<in> set bs. \<forall>c \<in> set b. isspace c \<Longrightarrow> filter_blocks bs = []"
  by (induction bs) (simp_all add: strip_all_space)

lemma markdown_to_blocks_all_space:
  assumes "\<forall>c \<in> set markdown. isspace c"
  shows "markdown_to_blocks markdown = []"
  unfolding markdown_to_blocks_def
proof (rule filter_blocks_all_space, intro ballI)
  fix b c assume "b \<in> set (py_split [NL, NL] markdown)" "c \<in> set b"
  then have "c \<in> set markdown" using py_split_chars by blast
  with assms show "isspace c" by blast
qed

text \<open>
  C10. On a document that is empty or consists of whitespace only, the conversion
  succeeds with the root \<open>ParentNode("div", [])\<close>: the children are the empty list, not
  \<open>None\<close>, and the root renders to \<open><div></div>\<close>.
\<close>

theorem markdown_to_html_node_blank:
  assumes "\<forall>c \<in> set markdown. isspace c"
  shows "markdown_to_html_node markdown = Inr (ParentNode (Some ''div'') (Some []) None)
         \<and> to_html (ParentNode (Some ''div'') (Some []) None) = Inr ''<div></div>''"
  using markdown_to_blocks_all_space [OF assms]
  by (simp add: markdown_to_html_node_def)

theorem markdown_to_html_node_blank_witness:
  "list_all isspace ('' '' @ [NL, NL, CHR 0x09, NL] @ ''  '')
   \<and> markdown_to_html_node ('' '' @ [NL, NL, CHR 0x09, NL] @ ''  '')
       = Inr (ParentNode (Some ''div'') (Some []) None)
   \<and> markdown_to_html_node [] = Inr (ParentNode (Some ''div'') (Some []) None)"
proof -
  have l: "list_all isspace ('' '' @ [NL, NL, CHR 0x09, NL] @ ''  '')"
    by (simp add: isspace_def)
  then have h: "\<forall>c \<in> set ('' '' @ [NL, NL, CHR 0x09, NL] @ ''  ''). isspace c"
    by (simp only: list_all_iff)
  have e: "\<forall>c \<in> set ([]::string). isspace c" by simp
  show ?thesis
    using l markdown_to_html_node_blank [OF h] markdown_to_html_node_blank [OF e] by blast
qed

subsection \<open>Classification of ordered lists\<close>

lemma hd_py_split_NL: "hd (py_split [NL] s) = takeWhile (\<lambda>c. c \<noteq> NL) s"
proof (induction s)
  case Nil
  then show ?case by simp
next
  case (Cons c cs)
  obtain q qs where q: "py_split [NL] cs = q # qs"
    using py_split_not_Nil [of "[NL]" cs] by (cases "py_split [NL] cs") auto
  with Cons show ?case by auto
qed

lemma all_lines_ol_nth:
  "all_lines_ol n ls \<longleftrightarrow> (\<forall>i < length ls. startswith (ls ! i) (str_nat (n + i) @ ''. ''))"
proof (induction ls arbitrary: n)
  case Nil
  then show ?case by simp
next
  case (Cons l ls)
  have "(\<forall>i < length (l # ls). startswith ((l # ls) ! i) (str_nat (n + i) @ ''. ''))
        \<longleftrightarrow> startswith l (str_nat n @ ''. '')
            \<and> (\<forall>i < length ls. startswith (ls ! i) (str_nat (Suc n + i) @ ''. ''))"
    by (auto simp: nth_Cons split: nat.splits)
  with Cons show ?case by simp
qed

lemma str_nat_1: "str_nat (Suc 0) = ''1''"
  by (simp add: str_nat.simps digit_char_def)

lemma startswith_Cons: "startswith s (p # ps) \<Longrightarrow> \<exists>cs. s = p # cs"
  by (cases s) auto

lemma ordered_lines_first:
  assumes "ordered_lines (py_split [NL] block)"
  shows "\<exists>cs. hd (py_split [NL] block) = CHR ''1'' # cs"
proof -
  obtain q qs where q: "py_split [NL] block = q # qs"
    using py_split_not_Nil [of "[NL]" block] by (cases "py_split [NL] block") auto
  with assms have "startswith q (str_nat (Suc 0) @ ''. '')"
    by (auto simp: ordered_lines_def)
  then have "startswith q ''1. ''" by (simp add: str_nat_1)
  then show ?thesis using q by (auto dest: startswith_Cons)
qed

lemma first_char_rules:
  assumes "hd (py_split [NL] block) = c # cs" "c \<noteq> NL"
  shows "\<exists>bs. block = c # bs"
proof -
  from assms(1) have t: "takeWhile (\<lambda>c. c \<noteq> NL) block = c # cs"
    by (simp only: hd_py_split_NL)
  show ?thesis
  proof (cases block)
    case Nil
    with t show ?thesis by simp
  next
    case (Cons b bs)
    with t show ?thesis by (auto split: if_splits)
  qed
qed

lemma digit_first_falls_through:
  assumes "hd (py_split [NL] block) = c # cs" "c \<notin> set ''#`>*-''" "c \<noteq> NL"
  shows "\<not> heading_match (hd (py_split [NL] block))"
    and "\<not> startswith block ''```''"
    and "\<not> list_all (\<lambda>line. startswith line ''>'') (py_split [NL] block)"
    and "\<not> list_all (\<lambda>line. startswith line ''* '' \<or> startswith line ''- '') (py_split [NL] block)"
proof -
  obtain q qs where q: "py_split [NL] block = q # qs"
    using py_split_not_Nil [of "[NL]" block] by (cases "py_split [NL] block") auto
  with assms have qc: "q = c # cs" by simp
  show "\<not> heading_match (hd (py_split [NL] block))"
    using assms by (simp add: heading_match_def)
  from first_char_rules [OF assms(1,3)] obtain bs where "block = c # bs" by blast
  then show "\<not> startswith block ''```''" using assms(2) by auto
  show "\<not> list_all (\<lambda>line. startswith line ''>'') (py_split [NL] block)"
    using q qc assms(2) by auto
  show "\<not> list_all (\<lambda>line. startswith line ''* '' \<or> startswith line ''- '') (py_split [NL] block)"
    using q qc assms(2) by auto
qed

lemma classify_digit_first:
  assumes "hd (py_split [NL] block) = c # cs" "c \<notin> set ''#`>*-''" "c \<noteq> NL"
  shows "block_to_block_type block =
           (if all_lines_ol (Suc 0) (py_split [NL] block) then ORDERED_LIST else PARAGRAPH)"
  using digit_first_falls_through [OF assms] py_split_not_Nil [of "[NL]" block]
  by (simp add: block_to_block_type_def Let_def)

text \<open>
  C5. A block is classified as an ordered list exactly when line \<open>i\<close> of it (from 0)
  starts with the decimal number \<open>i + 1\<close>, a dot and a space. A block that starts with a
  digit and deviates from that numbering (wrong first number, a skipped number, another
  delimiter) falls through to a paragraph. \<open>1. a / 2. b\<close> is an ordered list,
  \<open>1. a / 3. b\<close> a paragraph.
\<close>

theorem block_to_block_type_ordered_list:
  "(block_to_block_type block = ORDERED_LIST \<longleftrightarrow> ordered_lines (py_split [NL] block))
   \<and> (block \<noteq> [] \<and> hd block \<in> set ''0123456789'' \<and> \<not> ordered_lines (py_split [NL] block)
        \<longrightarrow> block_to_block_type block = PARAGRAPH)
   \<and> block_to_block_type (''1. a'' @ [NL] @ ''2. b'') = ORDERED_LIST
   \<and> block_to_block_type (''1. a'' @ [NL] @ ''3. b'') = PARAGRAPH"
proof -
  have ol: "all_lines_ol (Suc 0) ls \<longleftrightarrow> ordered_lines ls" for ls
    by (simp add: all_lines_ol_nth ordered_lines_def)
  have a: "block_to_block_type block = ORDERED_LIST \<longleftrightarrow> ordered_lines (py_split [NL] block)"
  proof
    assume "block_to_block_type block = ORDERED_LIST"
    then have "all_lines_ol 1 (py_split [NL] block)"
      by (simp add: block_to_block_type_def Let_def split: if_splits)
    then show "ordered_lines (py_split [NL] block)" by (simp add: ol)
  next
    assume h: "ordered_lines (py_split [NL] block)"
    then obtain cs where "hd (py_split [NL] block) = CHR ''1'' # cs"
      using ordered_lines_first by blast
    then have "block_to_block_type block =
           (if all_lines_ol (Suc 0) (py_split [NL] block) then ORDERED_LIST else PARAGRAPH)"
      by (rule classify_digit_first) simp_all
    with h show "block_to_block_type block = ORDERED_LIST" by (simp add: ol)
  qed
  have b: "block_to_block_type block = PARAGRAPH"
    if h: "block \<noteq> []" "hd block \<in> set ''0123456789''" "\<not> ordered_lines (py_split [NL] block)"
  proof -
    from h(1) obtain c bs where cb: "block = c # bs" by (cases block) auto
    with h(2) have c: "c \<in> set ''0123456789''" by simp
    then have cn: "c \<noteq> NL" and cm: "c \<notin> set ''#`>*-''" by auto
    have "hd (py_split [NL] block) = c # takeWhile (\<lambda>c. c \<noteq> NL) bs"
      unfolding hd_py_split_NL using cb cn by simp
    then have "block_to_block_type block =
           (if all_lines_ol (Suc 0) (py_split [NL] block) then ORDERED_LIST else PARAGRAPH)"
      using cm cn by (rule classify_digit_first)
    with h(3) show ?thesis by (simp add: ol)
  qed
  have c: "block_to_block_type (''1. a'' @ [NL] @ ''2. b'') = ORDERED_LIST"
    by (simp add: block_to_block_type_def heading_match_def endswith_def str_nat.simps digit_char_def)
  have d: "block_to_block_type (''1. a'' @ [NL] @ ''3. b'') = PARAGRAPH"
    by (simp add: block_to_block_type_def heading_match_def endswith_def str_nat.simps digit_char_def)
  from a b c d show ?thesis by blast
qed


theorem block_to_block_type_ordered_list_witness:
  "ordered_lines (py_split [NL] (''1. x'' @ [NL] @ ''2. y'' @ [NL] @ ''3. z''))
   \<and> block_to_block_type (''1. x'' @ [NL] @ ''2. y'' @ [NL] @ ''3. z'') = ORDERED_LIST
   \<and> ''2. x'' \<noteq> [] \<and> hd ''2. x'' \<in> set ''0123456789''
   \<and> \<not> ordered_lines (py_split [NL] ''2. x'')
   \<and> block_to_block_type ''2. x'' = PARAGRAPH
   \<and> \<not> ordered_lines (py_split [NL] ''1) x'')
   \<and> block_to_block_type ''1) x'' = PARAGRAPH"
proof -
  have a: "ordered_lines (py_split [NL] (''1. x'' @ [NL] @ ''2. y'' @ [NL] @ ''3. z''))"
    by (simp add: ordered_lines_def less_Suc_eq str_nat.simps digit_char_def)
  have b: "\<not> ordered_lines (py_split [NL] ''2. x'')"
    by (simp add: ordered_lines_def str_nat.simps digit_char_def)
  have c: "\<not> ordered_lines (py_split [NL] ''1) x'')"
    by (simp add: ordered_lines_def str_nat.simps digit_char_def)
  have d: "''2. x'' \<noteq> [] \<and> hd ''2. x'' \<in> set ''0123456789''" by simp
  have e: "''1) x'' \<noteq> [] \<and> hd ''1) x'' \<in> set ''0123456789''" by simp
  show ?thesis
    using a b c d e
      block_to_block_type_ordered_list [of "''1. x'' @ [NL] @ ''2. y'' @ [NL] @ ''3. z''"]
      block_to_block_type_ordered_list [of "''2. x''"]
      block_to_block_type_ordered_list [of "''1) x''"]
    by blast
qed

subsection \<open>The target of a span\<close>

lemma image_sections_target_ok: "list_all target_ok (image_sections images t)"
proof (induction images arbitrary: t)
  case Nil
  then show ?case by (simp add: target_ok_def)
next
  case (Cons im images)
  obtain alt u where im: "im = (alt, u)" by (cases im)
  show ?case unfolding im
    using Cons.IH by (auto simp: target_ok_def Let_def split: option.splits)
qed

lemma link_sections_target_ok: "list_all target_ok (link_sections links t)"
proof (induction links arbitrary: t)
  case Nil
  then show ?case by (simp add: target_ok_def)
next
  case (Cons l links)
  obtain anchor u where l: "l = (anchor, u)" by (cases l)
  show ?case unfolding l
    using Cons.IH by (auto simp: target_ok_def Let_def split: option.splits)
qed

lemma split_nodes_image_target_ok:
  "list_all target_ok nodes \<Longrightarrow> list_all target_ok (split_nodes_image nodes)"
  by (induction nodes) (simp_all add: Let_def image_sections_target_ok)

lemma split_nodes_link_target_ok:
  "list_all target_ok nodes \<Longrightarrow> list_all target_ok (split_nodes_link nodes)"
  by (induction nodes) (simp_all add: Let_def link_sections_target_ok)

lemma parts_to_nodes_target_ok:
  "tt \<noteq> LINK \<Longrightarrow> tt \<noteq> IMAGE \<Longrightarrow> list_all target_ok (parts_to_nodes i parts tt)"
  by (induction i parts tt rule: parts_to_nodes.induct) (simp_all add: target_ok_def)

lemma split_nodes_delimiter_target_ok:
  "tt \<noteq> LINK \<Longrightarrow> tt \<noteq> IMAGE \<Longrightarrow> list_all target_ok nodes \<Longrightarrow>
   split_nodes_delimiter nodes d tt = Inr new_nodes \<Longrightarrow> list_all target_ok new_nodes"
proof (induction nodes arbitrary: new_nodes)
  case Nil
  then show ?case by simp
next
  case (Cons n nodes)
  from Cons.prems(4) obtain rest where
    rest: "split_nodes_delimiter nodes d tt = Inr rest"
    by (auto simp: Let_def split: if_splits sum.splits)
  with Cons have r: "list_all target_ok rest" by simp
  from Cons.prems(4) rest have
    "new_nodes = n # rest \<or> new_nodes = parts_to_nodes 0 (py_split d (node_text n)) tt @ rest"
    by (auto simp: Let_def split: if_splits)
  then show ?case
    using r Cons.prems(1,2,3) by (auto simp: parts_to_nodes_target_ok)
qed

text \<open>
  C4. In every list of spans the tokenizer returns, each span has a target exactly when
  its kind is LINK or IMAGE, and none when it is TEXT, BOLD, ITALIC or CODE. Each pass
  of the pipeline keeps this: image extraction, link extraction and, for the three
  types the pipeline passes (BOLD, ITALIC, CODE), delimiter splitting.
\<close>

theorem text_to_textnodes_target:
  "(text_to_textnodes txt = Inr nodes \<longrightarrow> list_all target_ok nodes)
   \<and> (list_all target_ok old_nodes \<longrightarrow> list_all target_ok (split_nodes_image old_nodes))
   \<and> (list_all target_ok old_nodes \<longrightarrow> list_all target_ok (split_nodes_link old_nodes))
   \<and> (list_all target_ok old_nodes \<and> tt \<in> {BOLD, ITALIC, CODE}
        \<and> split_nodes_delimiter old_nodes delimiter tt = Inr new_nodes
        \<longrightarrow> list_all target_ok new_nodes)"
proof -
  have a: "list_all target_ok nodes" if h: "text_to_textnodes txt = Inr nodes"
  proof -
    let ?n0 = "split_nodes_link (split_nodes_image [TextNode txt TEXT None])"
    have "list_all target_ok [TextNode txt TEXT None]" by (simp add: target_ok_def)
    then have n0: "list_all target_ok ?n0"
      by (intro split_nodes_link_target_ok split_nodes_image_target_ok)
    from h obtain n1 n2 where
      s: "split_nodes_delimiter ?n0 ''**'' BOLD = Inr n1"
         "split_nodes_delimiter n1 ''_'' ITALIC = Inr n2"
         "split_nodes_delimiter n2 ''`'' CODE = Inr nodes"
      by (auto simp: text_to_textnodes_def Let_def split: sum.splits)
    have "list_all target_ok n1"
      using split_nodes_delimiter_target_ok [OF _ _ n0 s(1)] by simp
    then have "list_all target_ok n2"
      using split_nodes_delimiter_target_ok [OF _ _ _ s(2)] by simp
    then show ?thesis
      using split_nodes_delimiter_target_ok [OF _ _ _ s(3)] by simp
  qed
  have d: "list_all target_ok new_nodes"
    if "list_all target_ok old_nodes" "tt \<in> {BOLD, ITALIC, CODE}"
       "split_nodes_delimiter old_nodes delimiter tt = Inr new_nodes"
    using that split_nodes_delimiter_target_ok [of tt old_nodes delimiter new_nodes] by auto
  from a d show ?thesis
    using split_nodes_image_target_ok split_nodes_link_target_ok by blast
qed

theorem text_to_textnodes_target_witness:
  "text_to_textnodes ''x [a](b) ![c](d) _i_ **b** `k`''
     = Inr [TextNode ''x '' TEXT None, TextNode ''a'' LINK (Some ''b''),
            TextNode '' '' TEXT None, TextNode ''c'' IMAGE (Some ''d''),
            TextNode '' '' TEXT None, TextNode ''i'' ITALIC None,
            TextNode '' '' TEXT None, TextNode ''b'' BOLD None,
            TextNode '' '' TEXT None, TextNode ''k'' CODE None]
   \<and> list_all target_ok
         [TextNode ''x '' TEXT None, TextNode ''a'' LINK (Some ''b''),
          TextNode '' '' TEXT None, TextNode ''c'' IMAGE (Some ''d''),
          TextNode '' '' TEXT None, TextNode ''i'' ITALIC None,
          TextNode '' '' TEXT None, TextNode ''b'' BOLD None,
          TextNode '' '' TEXT None, TextNode ''k'' CODE None]
   \<and> list_all target_ok [TextNode ''![p](q) [r](s) _t_'' TEXT None]
   \<and> list_all target_ok (split_nodes_image [TextNode ''![p](q) [r](s) _t_'' TEXT None])
   \<and> list_all target_ok (split_nodes_link [TextNode ''![p](q) [r](s) _t_'' TEXT None])
   \<and> ITALIC \<in> {BOLD, ITALIC, CODE}
   \<and> split_nodes_delimiter [TextNode ''![p](q) [r](s) _t_'' TEXT None] ''_'' ITALIC
       = Inr [TextNode ''![p](q) [r](s) '' TEXT None, TextNode ''t'' ITALIC None]
   \<and> list_all target_ok [TextNode ''![p](q) [r](s) '' TEXT None, TextNode ''t'' ITALIC None]"
proof -
  have e: "text_to_textnodes ''x [a](b) ![c](d) _i_ **b** `k`''
     = Inr [TextNode ''x '' TEXT None, TextNode ''a'' LINK (Some ''b''),
            TextNode '' '' TEXT None, TextNode ''c'' IMAGE (Some ''d''),
            TextNode '' '' TEXT None, TextNode ''i'' ITALIC None,
            TextNode '' '' TEXT None, TextNode ''b'' BOLD None,
            TextNode '' '' TEXT None, TextNode ''k'' CODE None]"
    by (simp add: text_to_textnodes_def extract_markdown_links_def not_bracket_def
          not_paren_def)
  have o: "list_all target_ok [TextNode ''![p](q) [r](s) _t_'' TEXT None]"
    by (simp add: target_ok_def)
  have t: "ITALIC \<in> {BOLD, ITALIC, CODE}" by simp
  have d: "split_nodes_delimiter [TextNode ''![p](q) [r](s) _t_'' TEXT None] ''_'' ITALIC
       = Inr [TextNode ''![p](q) [r](s) '' TEXT None, TextNode ''t'' ITALIC None]"
    by simp
  show ?thesis
    using e o t d
      text_to_textnodes_target
        [of "''x [a](b) ![c](d) _i_ **b** `k`''"
            "[TextNode ''x '' TEXT None, TextNode ''a'' LINK (Some ''b''),
              TextNode '' '' TEXT None, TextNode ''c'' IMAGE (Some ''d''),
              TextNode '' '' TEXT None, TextNode ''i'' ITALIC None,
              TextNode '' '' TEXT None, TextNode ''b'' BOLD None,
              TextNode '' '' TEXT None, TextNode ''k'' CODE None]"
            "[TextNode ''![p](q) [r](s) _t_'' TEXT None]" ITALIC "''_''"
            "[TextNode ''![p](q) [r](s) '' TEXT None, TextNode ''t'' ITALIC None]"]
    by blast
qed

subsection \<open>Unmatched delimiters\<close>

lemma length_py_split: "length (py_split sep s) = Suc (count_occ sep s)"
  by (induction sep s rule: py_split.induct) (auto split: list.splits simp: py_split_not_Nil)

lemma unmatched_odd:
  "unmatched d n \<longleftrightarrow> text_type n = TEXT \<and> odd (count_occ d (node_text n))"
  by (auto simp: unmatched_def length_py_split)

lemma split_nodes_delimiter_Inl:
  "split_nodes_delimiter nodes d tt = Inl e \<Longrightarrow>
     \<exists>n \<in> set nodes. unmatched d n \<and> e = MalformedInline d (node_text n)"
proof (induction nodes)
  case Nil
  then show ?case by simp
next
  case (Cons n nodes)
  show ?case
  proof (cases "unmatched d n")
    case True
    then have "length (py_split d (node_text n)) > 1"
      using py_split_not_Nil [of d "node_text n"]
      by (cases "py_split d (node_text n)") (auto simp: unmatched_def)
    with True Cons.prems have "e = MalformedInline d (node_text n)"
      by (auto simp: unmatched_def Let_def)
    with True show ?thesis by auto
  next
    case False
    with Cons.prems have "split_nodes_delimiter nodes d tt = Inl e"
      by (auto simp: unmatched_def Let_def split: if_splits sum.splits)
    with Cons.IH show ?thesis by auto
  qed
qed

lemma split_nodes_delimiter_unmatched:
  "\<exists>n \<in> set nodes. unmatched d n \<Longrightarrow> \<exists>e. split_nodes_delimiter nodes d tt = Inl e"
proof (induction nodes)
  case Nil
  then show ?case by simp
next
  case (Cons n nodes)
  show ?case
  proof (cases "unmatched d n")
    case True
    then have "length (py_split d (node_text n)) > 1"
      using py_split_not_Nil [of d "node_text n"]
      by (cases "py_split d (node_text n)") (auto simp: unmatched_def)
    with True show ?thesis by (auto simp: unmatched_def Let_def)
  next
    case False
    with Cons.prems have "\<exists>n \<in> set nodes. unmatched d n" by auto
    with Cons.IH obtain e where "split_nodes_delimiter nodes d tt = Inl e" by blast
    then show ?thesis by (auto simp: Let_def)
  qed
qed

lemma split_nodes_delimiter_raises:
  "raises_MalformedInline (split_nodes_delimiter nodes d tt) \<longleftrightarrow> (\<exists>n \<in> set nodes. unmatched d n)"
proof
  assume "raises_MalformedInline (split_nodes_delimiter nodes d tt)"
  then obtain e where "split_nodes_delimiter nodes d tt = Inl e"
    by (cases "split_nodes_delimiter nodes d tt") auto
  then show "\<exists>n \<in> set nodes. unmatched d n"
    using split_nodes_delimiter_Inl by blast
next
  assume "\<exists>n \<in> set nodes. unmatched d n"
  then obtain e where e: "split_nodes_delimiter nodes d tt = Inl e"
    using split_nodes_delimiter_unmatched by blast
  then obtain t where "e = MalformedInline d t"
    using split_nodes_delimiter_Inl by blast
  with e show "raises_MalformedInline (split_nodes_delimiter nodes d tt)" by simp
qed

lemma split_nodes_delimiter_error_kind:
  "split_nodes_delimiter nodes d tt = Inl e \<Longrightarrow> raises_MalformedInline (split_nodes_delimiter nodes d tt)"
  using split_nodes_delimiter_Inl [of nodes d tt e] by auto

text \<open>
  C3. The tokenizer raises the malformed-inline error exactly when one of the delimiter
  passes it runs (\<open>**\<close>, then \<open>_\<close>, then the backtick) meets a TEXT span that the
  delimiter splits into an even number of parts; it raises no other error. The number
  of parts is even exactly when the number of occurrences of the delimiter in the span
  (found from left to right, without overlap) is odd, so a delimiter that does not occur
  in a span is no error. Tokenizing \<open>broken `code\<close> raises the error for the backtick.
\<close>

theorem text_to_textnodes_malformed:
  "(raises_MalformedInline (text_to_textnodes txt)
      \<longleftrightarrow> (\<exists>(delimiter, nodes) \<in> set (delimiter_passes txt). \<exists>n \<in> set nodes. unmatched delimiter n))
   \<and> (text_to_textnodes txt = Inl e \<longrightarrow> raises_MalformedInline (text_to_textnodes txt))
   \<and> (unmatched delimiter n
        \<longleftrightarrow> text_type n = TEXT \<and> odd (count_occ delimiter (node_text n)))
   \<and> (count_occ delimiter (node_text n) = 0 \<longrightarrow> \<not> unmatched delimiter n)
   \<and> text_to_textnodes ''broken `code'' = Inl (MalformedInline ''`'' ''broken `code'')"
proof -
  let ?n0 = "split_nodes_link (split_nodes_image [TextNode txt TEXT None])"
  have a: "raises_MalformedInline (text_to_textnodes txt)
      \<longleftrightarrow> (\<exists>(delimiter, nodes) \<in> set (delimiter_passes txt). \<exists>n \<in> set nodes. unmatched delimiter n)"
  proof (cases "split_nodes_delimiter ?n0 ''**'' BOLD")
    case (Inl e1)
    then have r: "raises_MalformedInline (split_nodes_delimiter ?n0 ''**'' BOLD)"
      by (rule split_nodes_delimiter_error_kind)
    then have "\<exists>n \<in> set ?n0. unmatched ''**'' n"
      by (simp only: split_nodes_delimiter_raises)
    moreover have "raises_MalformedInline (text_to_textnodes txt)"
      using r Inl by (simp add: text_to_textnodes_def)
    ultimately show ?thesis using Inl by (simp add: delimiter_passes_def)
  next
    case (Inr n1)
    then have no1: "\<not> (\<exists>n \<in> set ?n0. unmatched ''**'' n)"
      using split_nodes_delimiter_raises [of ?n0 "''**''" BOLD] by simp
    show ?thesis
    proof (cases "split_nodes_delimiter n1 ''_'' ITALIC")
      case (Inl e2)
      then have r: "raises_MalformedInline (split_nodes_delimiter n1 ''_'' ITALIC)"
        by (rule split_nodes_delimiter_error_kind)
      then have "\<exists>n \<in> set n1. unmatched ''_'' n"
        by (simp only: split_nodes_delimiter_raises)
      moreover have "raises_MalformedInline (text_to_textnodes txt)"
        using r Inl Inr by (simp add: text_to_textnodes_def)
      ultimately show ?thesis using Inl Inr by (simp add: delimiter_passes_def)
    next
      case n2: (Inr n2)
      then have no2: "\<not> (\<exists>n \<in> set n1. unmatched ''_'' n)"
        using split_nodes_delimiter_raises [of n1 "''_''" ITALIC] by simp
      have "text_to_textnodes txt = split_nodes_delimiter n2 ''`'' CODE"
        using Inr n2 by (simp add: text_to_textnodes_def)
      then have "raises_MalformedInline (text_to_textnodes txt)
                   \<longleftrightarrow> (\<exists>n \<in> set n2. unmatched ''`'' n)"
        by (simp only: split_nodes_delimiter_raises)
      then show ?thesis using Inr n2 no1 no2 by (simp add: delimiter_passes_def)
    qed
  qed
  have b: "raises_MalformedInline (text_to_textnodes txt)" if "text_to_textnodes txt = Inl e"
    using that split_nodes_delimiter_error_kind
    by (auto simp: text_to_textnodes_def Let_def split: sum.splits)
  have c: "text_to_textnodes ''broken `code'' = Inl (MalformedInline ''`'' ''broken `code'')"
    by (simp add: text_to_textnodes_def extract_markdown_links_def)
  have d: "count_occ delimiter (node_text n) = 0 \<longrightarrow> \<not> unmatched delimiter n"
    by (simp add: unmatched_odd)
  from a b c d unmatched_odd [of delimiter n] show ?thesis by blast
qed

theorem text_to_textnodes_malformed_witness:
  "(\<exists>(delimiter, nodes) \<in> set (delimiter_passes ''say _hi'').
       \<exists>n \<in> set nodes. unmatched delimiter n)
   \<and> raises_MalformedInline (text_to_textnodes ''say _hi'')
   \<and> text_to_textnodes ''say _hi'' = Inl (MalformedInline ''_'' ''say _hi'')
   \<and> count_occ ''_'' (node_text (TextNode ''plain'' TEXT None)) = 0
   \<and> \<not> unmatched ''_'' (TextNode ''plain'' TEXT None)"
proof -
  have h: "\<exists>(delimiter, nodes) \<in> set (delimiter_passes ''say _hi'').
             \<exists>n \<in> set nodes. unmatched delimiter n"
    by (simp add: delimiter_passes_def Let_def unmatched_def extract_markdown_links_def)
  have e: "text_to_textnodes ''say _hi'' = Inl (MalformedInline ''_'' ''say _hi'')"
    by (simp add: text_to_textnodes_def extract_markdown_links_def)
  have z: "count_occ ''_'' (node_text (TextNode ''plain'' TEXT None)) = 0"
    by simp
  show ?thesis
    using h e z
      text_to_textnodes_malformed
        [of "''say _hi''" "MalformedInline ''_'' ''say _hi''" "''_''"
            "TextNode ''plain'' TEXT None"]
    by blast
qed

subsection \<open>Segmentation\<close>


lemma double_newline_append_iff:
  "double_newline s \<longleftrightarrow> (\<exists>xs ys. s = xs @ NL # NL # ys)"
proof (induction s rule: double_newline.induct)
  case (1 a b cs)
  show ?case
  proof
    assume "double_newline (a # b # cs)"
    then consider "a = NL \<and> b = NL" | "double_newline (b # cs)" by auto
    then show "\<exists>xs ys. a # b # cs = xs @ NL # NL # ys"
    proof cases
      case 1
      then have "a # b # cs = [] @ NL # NL # cs" by simp
      then show ?thesis by blast
    next
      case 2
      with "1.IH" obtain xs ys where "b # cs = xs @ NL # NL # ys" by blast
      then have "a # b # cs = (a # xs) @ NL # NL # ys" by simp
      then show ?thesis by blast
    qed
  next
    assume "\<exists>xs ys. a # b # cs = xs @ NL # NL # ys"
    then obtain xs ys where e: "a # b # cs = xs @ NL # NL # ys" by blast
    show "double_newline (a # b # cs)"
    proof (cases xs)
      case Nil
      with e show ?thesis by simp
    next
      case (Cons x xs')
      with e have "b # cs = xs' @ NL # NL # ys" by simp
      then have "\<exists>xs ys. b # cs = xs @ NL # NL # ys" by blast
      with "1.IH" have "double_newline (b # cs)" by simp
      then show ?thesis by simp
    qed
  qed
qed (auto simp: Cons_eq_append_conv)

lemma double_newline_sub:
  assumes "double_newline t" shows "double_newline (a @ t @ b)"
proof -
  from assms obtain xs ys where "t = xs @ NL # NL # ys"
    by (auto simp: double_newline_append_iff)
  then have "a @ t @ b = (a @ xs) @ NL # NL # (ys @ b)" by simp
  then show ?thesis unfolding double_newline_append_iff by blast
qed

lemma double_newline_rev: "double_newline (rev s) \<Longrightarrow> double_newline s"
proof -
  assume "double_newline (rev s)"
  then obtain xs ys where "rev s = xs @ NL # NL # ys"
    by (auto simp: double_newline_append_iff)
  then have "rev (rev s) = rev (xs @ NL # NL # ys)" by simp
  then have "s = rev ys @ NL # NL # rev xs" by simp
  then show ?thesis unfolding double_newline_append_iff by blast
qed

lemma double_newline_dropWhile: "double_newline (dropWhile P s) \<Longrightarrow> double_newline s"
  using double_newline_sub [of "dropWhile P s" "takeWhile P s" "[]"] by simp

lemma double_newline_drop: "double_newline (drop n s) \<Longrightarrow> double_newline s"
  using double_newline_sub [of "drop n s" "take n s" "[]"] by simp

lemma double_newline_take: "double_newline (take n s) \<Longrightarrow> double_newline s"
  using double_newline_sub [of "take n s" "[]" "drop n s"] by simp

lemma double_newline_strip: "double_newline (strip s) \<Longrightarrow> double_newline s"
  unfolding strip_def
  by (blast dest: double_newline_rev double_newline_dropWhile)

lemma hd_py_split_prefix: "\<exists>r. s = hd (py_split sep s) @ r"
proof (induction sep s rule: py_split.induct)
  case (1 sep)
  then show ?case by simp
next
  case (2 sep c cs)
  show ?case
  proof (cases "sep \<noteq> [] \<and> startswith (c # cs) sep")
    case True
    then show ?thesis by simp
  next
    case False
    obtain q qs where q: "py_split sep cs = q # qs"
      using py_split_not_Nil [of sep cs] by (cases "py_split sep cs") auto
    with "2.IH"(2) False obtain r where "cs = q @ r" by auto
    with q False show ?thesis by auto
  qed
qed

lemma py_split_no_double_newline:
  "p \<in> set (py_split [NL, NL] s) \<Longrightarrow> \<not> double_newline p"
proof (induction "[NL, NL]" s arbitrary: p rule: py_split.induct)
  case 1
  then show ?case by simp
next
  case (2 c cs)
  show ?case
  proof (cases "startswith (c # cs) [NL, NL]")
    case True
    with "2.prems" have "p = [] \<or> p \<in> set (py_split [NL, NL] (drop 2 (c # cs)))"
      by auto
    with "2.hyps"(1) True show ?thesis by auto
  next
    case False
    obtain q qs where q: "py_split [NL, NL] cs = q # qs"
      using py_split_not_Nil [of "[NL, NL]" cs] by (cases "py_split [NL, NL] cs") auto
    from hd_py_split_prefix [of cs "[NL, NL]"] q obtain r where r: "cs = q @ r" by auto
    from "2.hyps"(2) False q have qq: "\<not> double_newline q" and
      qs: "\<And>p. p \<in> set qs \<Longrightarrow> \<not> double_newline p" by auto
    from False q "2.prems" have "p = c # q \<or> p \<in> set qs" by auto
    then show ?thesis
    proof
      assume p: "p = c # q"
      show ?thesis
      proof (cases q)
        case Nil
        with p show ?thesis by simp
      next
        case (Cons d ds)
        with r False have "\<not> (c = NL \<and> d = NL)" by auto
        with p Cons qq show ?thesis by simp
      qed
    next
      assume "p \<in> set qs"
      then show ?thesis by (rule qs)
    qed
  qed
qed

lemma last_dropWhile: "dropWhile P xs \<noteq> [] \<Longrightarrow> last (dropWhile P xs) = last xs"
  by (induction xs) (auto split: if_splits)

lemma strip_trimmed:
  assumes "strip x \<noteq> []" shows "trimmed (strip x)"
proof -
  let ?y = "dropWhile isspace x"
  let ?z = "dropWhile isspace (rev ?y)"
  have s: "strip x = rev ?z" by (simp add: strip_def)
  with assms have z: "?z \<noteq> []" by simp
  then have y: "?y \<noteq> []" by (metis dropWhile.simps(1) rev.simps(1))
  have "\<not> isspace (hd ?z)" using z by (rule hd_dropWhile)
  then have l: "\<not> isspace (last (rev ?z))" using z by (simp add: last_rev)
  have "last ?z = last (rev ?y)" using z by (rule last_dropWhile)
  also have "\<dots> = hd ?y" using y by (simp add: last_rev)
  finally have "hd (rev ?z) = hd ?y" using z by (simp add: hd_rev)
  moreover have "\<not> isspace (hd ?y)" using y by (rule hd_dropWhile)
  ultimately have "\<not> isspace (hd (rev ?z))" by simp
  with l z show ?thesis unfolding s trimmed_def by simp
qed

lemma strip_id:
  assumes "trimmed b" shows "strip b = b"
proof -
  from assms obtain c cs where b: "b = c # cs" and c: "\<not> isspace c"
    by (cases b) (auto simp: trimmed_def)
  then have d: "dropWhile isspace b = b" by simp
  from assms have "rev b \<noteq> []" "\<not> isspace (hd (rev b))"
    by (auto simp: trimmed_def hd_rev)
  then have "dropWhile isspace (rev b) = rev b"
    by (cases "rev b") auto
  with d show ?thesis by (simp add: strip_def)
qed

lemma filter_blocks_props:
  "b \<in> set (filter_blocks raw) \<Longrightarrow> \<exists>x \<in> set raw. b = strip x \<and> strip x \<noteq> []"
  by (induction raw) (auto simp: Let_def split: if_splits)

lemma markdown_to_blocks_props:
  assumes "b \<in> set (markdown_to_blocks markdown)"
  shows "trimmed b" and "\<not> double_newline b"
proof -
  from assms obtain x where x: "x \<in> set (py_split [NL, NL] markdown)"
    "b = strip x" "strip x \<noteq> []"
    unfolding markdown_to_blocks_def by (blast dest: filter_blocks_props)
  then show "trimmed b" by (simp add: strip_trimmed)
  from x(1) have "\<not> double_newline x" by (rule py_split_no_double_newline)
  then show "\<not> double_newline b" using x(2) by (blast dest: double_newline_strip)
qed

lemma trimmed_not_whitespace: "trimmed b \<Longrightarrow> b \<noteq> [] \<and> \<not> (\<forall>c \<in> set b. isspace c)"
  by (cases b) (auto simp: trimmed_def)

lemma py_split_single: "\<not> double_newline b \<Longrightarrow> py_split [NL, NL] b = [b]"
proof (induction b)
  case Nil
  then show ?case by simp
next
  case (Cons c cs)
  then have n: "\<not> startswith (c # cs) [NL, NL]" by (cases cs) auto
  from Cons.prems have "\<not> double_newline cs" by (cases cs) auto
  with Cons.IH have "py_split [NL, NL] cs = [cs]" by simp
  with n show ?case by simp
qed

lemma py_split_block_sep:
  "\<not> double_newline b \<Longrightarrow> b = [] \<or> last b \<noteq> NL \<Longrightarrow>
   py_split [NL, NL] (b @ NL # NL # rest) = b # py_split [NL, NL] rest"
proof (induction b)
  case Nil
  then show ?case by simp
next
  case (Cons c cs)
  have n: "\<not> startswith (c # cs @ NL # NL # rest) [NL, NL]"
  proof (cases cs)
    case Nil
    with Cons.prems(2) show ?thesis by simp
  next
    case (Cons d ds)
    with Cons.prems(1) show ?thesis by auto
  qed
  from Cons.prems(1) have a: "\<not> double_newline cs" by (cases cs) auto
  from Cons.prems(2) have b: "cs = [] \<or> last cs \<noteq> NL" by (cases cs) auto
  from Cons.IH [OF a b] n show ?case by simp
qed

lemma block_like_last: "block_like b \<Longrightarrow> b = [] \<or> last b \<noteq> NL"
  by (auto simp: block_like_def trimmed_def isspace_def)

lemma py_split_join:
  "bs \<noteq> [] \<Longrightarrow> list_all block_like bs \<Longrightarrow> py_split [NL, NL] (join [NL, NL] bs) = bs"
proof (induction "[NL, NL]" bs rule: join.induct)
  case 1
  then show ?case by simp
next
  case (2 x)
  then show ?case by (simp add: py_split_single block_like_def)
next
  case (3 x y ys)
  from "3.prems" have x: "\<not> double_newline x" "x = [] \<or> last x \<noteq> NL"
    using block_like_last [of x] by (auto simp: block_like_def)
  from "3.prems" "3.hyps" have "py_split [NL, NL] (join [NL, NL] (y # ys)) = y # ys" by simp
  with py_split_block_sep [OF x, of "join [NL, NL] (y # ys)"] show ?case by simp
qed

lemma filter_blocks_id: "list_all trimmed bs \<Longrightarrow> filter_blocks bs = bs"
  by (induction bs) (auto simp: Let_def strip_id trimmed_def)

text \<open>
  C6. No block of a segmentation is empty or made of whitespace only, and segmentation
  is idempotent: the blocks joined by a blank line segment into the same blocks again,
  so into the same number of blocks.
\<close>

theorem markdown_to_blocks_idempotent:
  "(\<forall>b \<in> set (markdown_to_blocks D). b \<noteq> [] \<and> \<not> (\<forall>c \<in> set b. isspace c))
   \<and> markdown_to_blocks (join [NL, NL] (markdown_to_blocks D)) = markdown_to_blocks D
   \<and> length (markdown_to_blocks (join [NL, NL] (markdown_to_blocks D)))
       = length (markdown_to_blocks D)"
proof -
  let ?bs = "markdown_to_blocks D"
  have t: "list_all trimmed ?bs"
    by (simp add: list_all_iff markdown_to_blocks_props(1))
  have g: "list_all block_like ?bs"
    by (simp add: list_all_iff block_like_def markdown_to_blocks_props)
  have a: "\<forall>b \<in> set ?bs. b \<noteq> [] \<and> \<not> (\<forall>c \<in> set b. isspace c)"
    using markdown_to_blocks_props(1) trimmed_not_whitespace by blast
  have b: "markdown_to_blocks (join [NL, NL] ?bs) = ?bs"
  proof (cases "?bs = []")
    case True
    then show ?thesis by (simp add: markdown_to_blocks_def)
  next
    case False
    then have "py_split [NL, NL] (join [NL, NL] ?bs) = ?bs"
      using g by (rule py_split_join)
    then have "markdown_to_blocks (join [NL, NL] ?bs) = filter_blocks ?bs"
      by (simp add: markdown_to_blocks_def)
    with t show ?thesis by (simp add: filter_blocks_id)
  qed
  from a b show ?thesis by simp
qed

theorem markdown_to_blocks_idempotent_witness:
  "markdown_to_blocks ('' a'' @ [NL, NL, NL] @ ''b '' @ [NL] @ ''c'' @ [NL, NL, CHR 0x09, NL, NL])
     = [''a'', ''b '' @ [NL] @ ''c'']
   \<and> ''a'' \<in> set (markdown_to_blocks
         ('' a'' @ [NL, NL, NL] @ ''b '' @ [NL] @ ''c'' @ [NL, NL, CHR 0x09, NL, NL]))
   \<and> ''a'' \<noteq> [] \<and> \<not> (\<forall>c \<in> set ''a''. isspace c)
   \<and> markdown_to_blocks (join [NL, NL] [''a'', ''b '' @ [NL] @ ''c''])
       = [''a'', ''b '' @ [NL] @ ''c'']"
proof -
  have e: "markdown_to_blocks
             ('' a'' @ [NL, NL, NL] @ ''b '' @ [NL] @ ''c'' @ [NL, NL, CHR 0x09, NL, NL])
           = [''a'', ''b '' @ [NL] @ ''c'']"
    by (simp add: markdown_to_blocks_def strip_def isspace_def)
  have m: "''a'' \<in> set (markdown_to_blocks
         ('' a'' @ [NL, NL, NL] @ ''b '' @ [NL] @ ''c'' @ [NL, NL, CHR 0x09, NL, NL]))"
    unfolding e by simp
  show ?thesis
    using m markdown_to_blocks_idempotent
        [of "'' a'' @ [NL, NL, NL] @ ''b '' @ [NL] @ ''c'' @ [NL, NL, CHR 0x09, NL, NL]"]
    unfolding e by blast
qed

subsection \<open>Code blocks\<close>

text \<open>
  On any text, \<open>strip('\n')\<close> removes every newline at the start and at the end; on a
  text without blank line that is at most one on each side.
\<close>

lemma takeWhile_NL_replicate:
  "takeWhile (\<lambda>c. c \<in> set [NL]) s = replicate (length (takeWhile (\<lambda>c. c \<in> set [NL]) s)) NL"
proof -
  have "\<forall>y \<in> set (takeWhile (\<lambda>c. c \<in> set [NL]) s). y = NL"
    by (auto dest: set_takeWhileD)
  then show ?thesis by (simp add: replicate_length_same)
qed

lemma strip_chars_NL_decomp:
  "\<exists>a b. s = replicate a NL @ strip_chars [NL] s @ replicate b NL"
proof -
  let ?P = "\<lambda>c. c \<in> set [NL]"
  let ?d1 = "dropWhile ?P s"
  let ?d2 = "dropWhile ?P (rev ?d1)"
  have "s = takeWhile ?P s @ ?d1" by simp
  moreover have "?d1 = rev (takeWhile ?P (rev ?d1) @ ?d2)"
    by (simp only: takeWhile_dropWhile_id rev_rev_ident)
  then have "?d1 = rev ?d2 @ rev (takeWhile ?P (rev ?d1))"
    by (simp only: rev_append)
  ultimately have "s = takeWhile ?P s @ rev ?d2 @ rev (takeWhile ?P (rev ?d1))" by simp
  moreover have "rev (takeWhile ?P (rev ?d1))
                   = replicate (length (takeWhile ?P (rev ?d1))) NL"
    using takeWhile_NL_replicate [of "rev ?d1"] by (metis rev_replicate)
  ultimately have
    "s = replicate (length (takeWhile ?P s)) NL @ rev ?d2
           @ replicate (length (takeWhile ?P (rev ?d1))) NL"
    using takeWhile_NL_replicate [of s] by simp
  then show ?thesis unfolding strip_chars_def by blast
qed

lemma strip_chars_ends:
  assumes "strip_chars chars x \<noteq> []"
  shows "hd (strip_chars chars x) \<notin> set chars" and "last (strip_chars chars x) \<notin> set chars"
proof -
  let ?P = "\<lambda>c. c \<in> set chars"
  let ?y = "dropWhile ?P x"
  let ?z = "dropWhile ?P (rev ?y)"
  have s: "strip_chars chars x = rev ?z" by (simp add: strip_chars_def)
  with assms have z: "?z \<noteq> []" by simp
  then have y: "?y \<noteq> []" by (metis dropWhile.simps(1) rev.simps(1))
  have "\<not> ?P (hd ?z)" using z by (rule hd_dropWhile)
  then show "last (strip_chars chars x) \<notin> set chars" using z unfolding s by (simp add: last_rev)
  have "last ?z = last (rev ?y)" using z by (rule last_dropWhile)
  also have "\<dots> = hd ?y" using y by (simp add: last_rev)
  finally have "hd (rev ?z) = hd ?y" using z by (simp add: hd_rev)
  moreover have "\<not> ?P (hd ?y)" using y by (rule hd_dropWhile)
  ultimately show "hd (strip_chars chars x) \<notin> set chars" unfolding s by simp
qed

lemma strip_chars_NL_no_newline_ends:
  "\<not> startswith (strip_chars [NL] s) [NL] \<and> \<not> endswith (strip_chars [NL] s) [NL]"
proof (cases "strip_chars [NL] s = []")
  case True
  then show ?thesis by (simp add: endswith_def)
next
  case False
  from strip_chars_ends [OF False] have
    h: "hd (strip_chars [NL] s) \<noteq> NL" and l: "last (strip_chars [NL] s) \<noteq> NL" by auto
  from False h have "\<not> startswith (strip_chars [NL] s) [NL]"
    by (cases "strip_chars [NL] s") auto
  moreover from False l have "\<not> startswith (rev (strip_chars [NL] s)) [NL]"
    by (cases "rev (strip_chars [NL] s)") (auto simp: last_rev [symmetric] simp del: last_rev)
  ultimately show ?thesis by (simp add: endswith_def)
qed

lemma dropWhile_NL_once:
  "\<not> double_newline s \<Longrightarrow>
     dropWhile (\<lambda>c. c \<in> set [NL]) s = (if startswith s [NL] then tl s else s)"
proof (cases s)
  case Nil
  then show ?thesis by simp
next
  case (Cons c cs)
  assume "\<not> double_newline s"
  with Cons show ?thesis by (cases cs) auto
qed

lemma strip_chars_NL_once:
  assumes "\<not> double_newline s"
  shows "strip_chars [NL] s = strip_one_newline s"
proof -
  let ?P = "\<lambda>c. c \<in> set [NL]"
  let ?s1 = "if startswith s [NL] then tl s else s"
  have d1: "dropWhile ?P s = ?s1" using assms by (rule dropWhile_NL_once)
  have "\<not> double_newline ?s1"
    using assms double_newline_drop [of 1 s] by (auto simp: drop_Suc)
  then have "\<not> double_newline (rev ?s1)"
    using double_newline_rev by blast
  then have "dropWhile ?P (rev ?s1)
               = (if startswith (rev ?s1) [NL] then tl (rev ?s1) else rev ?s1)"
    by (rule dropWhile_NL_once)
  then have "rev (dropWhile ?P (rev ?s1))
               = (if endswith ?s1 [NL] then butlast ?s1 else ?s1)"
    by (simp add: endswith_def butlast_rev [symmetric] del: butlast_rev)
  then show ?thesis
    unfolding strip_chars_def d1 strip_one_newline_def Let_def .
qed

lemma code_block_node:
  assumes "block_to_block_type block = CODE_BLOCK"
  shows "code_block_to_html_node block =
           Inr (ParentNode (Some ''pre'')
                  (Some [LeafNode (Some (strip_chars [NL] (fence_stripped block)))
                           (Some ''code'') None]) None)"
proof -
  from assms have "startswith block ''```''" "endswith block ''```''"
    by (auto simp: block_to_block_type_def Let_def split: if_splits)
  then show ?thesis by (simp add: code_block_to_html_node_def fence_stripped_def)
qed

lemma fence_stripped_no_blank:
  "\<not> double_newline block \<Longrightarrow> \<not> double_newline (fence_stripped block)"
  unfolding fence_stripped_def
  by (blast dest: double_newline_drop double_newline_take)

lemma startswith_take: "startswith s p \<Longrightarrow> take (length p) s = p"
  by (induction s p rule: startswith.induct) auto

lemma endswith_drop:
  assumes "endswith s p" shows "drop (length s - length p) s = p"
proof -
  from assms have "take (length (rev p)) (rev s) = rev p"
    unfolding endswith_def by (rule startswith_take)
  then have "rev (take (length p) (rev s)) = p" by simp
  then show ?thesis by (simp add: rev_take)
qed

lemma code_block_fences:
  assumes "block_to_block_type block = CODE_BLOCK"
  shows "block = ''```'' @ fence_stripped block @ ''```''"
proof -
  from assms have l: "length block > 6" and s: "startswith block ''```''"
    and e: "endswith block ''```''"
    by (auto simp: block_to_block_type_def Let_def split: if_splits)
  from s have t: "take 3 block = ''```''" using startswith_take [of block "''```''"] by (simp add: numeral_3_eq_3)
  from e have d: "drop (length block - 3) block = ''```''"
    using endswith_drop [of block "''```''"] by (simp add: numeral_3_eq_3)
  have "block = take (length block - 3) block @ drop (length block - 3) block"
    by (rule append_take_drop_id [symmetric])
  also have "take (length block - 3) block
               = take 3 (take (length block - 3) block) @ drop 3 (take (length block - 3) block)"
    by (rule append_take_drop_id [symmetric])
  also have "take 3 (take (length block - 3) block) = take 3 block"
  proof -
    from l have "min 3 (length block - 3) = 3" by arith
    then show ?thesis by (simp only: take_take)
  qed
  finally show ?thesis using t d by (simp add: fence_stripped_def)
qed

text \<open>
  C2. A block of a segmentation that is classified as code consists of the opening
  fence, a content and the closing fence. The conversion removes both fences and then
  one leading newline and one trailing newline of the content, where present, and no
  more; the rest is not tokenized: it is the value of one leaf with the tag \<open>code\<close>,
  the only child of a \<open>pre\<close> container. The same holds for every text without blank
  line that is classified as code.
\<close>

theorem code_block_to_html_node_segmented:
  "(block \<in> set (markdown_to_blocks markdown) \<and> block_to_block_type block = CODE_BLOCK \<longrightarrow>
      block = ''```'' @ fence_stripped block @ ''```''
      \<and> code_block_to_html_node block =
          Inr (ParentNode (Some ''pre'')
                 (Some [LeafNode (Some (strip_one_newline (fence_stripped block)))
                          (Some ''code'') None]) None))
   \<and> (\<not> double_newline block \<and> block_to_block_type block = CODE_BLOCK \<longrightarrow>
        code_block_to_html_node block =
          Inr (ParentNode (Some ''pre'')
                 (Some [LeafNode (Some (strip_one_newline (fence_stripped block)))
                          (Some ''code'') None]) None))"
proof -
  have g: "code_block_to_html_node block =
          Inr (ParentNode (Some ''pre'')
                 (Some [LeafNode (Some (strip_one_newline (fence_stripped block)))
                          (Some ''code'') None]) None)"
    if n: "\<not> double_newline block" and c: "block_to_block_type block = CODE_BLOCK"
  proof -
    from n have "\<not> double_newline (fence_stripped block)" by (rule fence_stripped_no_blank)
    then have "strip_chars [NL] (fence_stripped block) = strip_one_newline (fence_stripped block)"
      by (rule strip_chars_NL_once)
    with code_block_node [OF c] show ?thesis by simp
  qed
  have "\<not> double_newline block" if "block \<in> set (markdown_to_blocks markdown)"
    using that by (rule markdown_to_blocks_props(2))
  with g code_block_fences show ?thesis by blast
qed

theorem code_block_to_html_node_segmented_witness:
  "''```'' @ [NL] @ ''**x**'' @ [NL] @ ''```''
     \<in> set (markdown_to_blocks (''intro'' @ [NL, NL] @ ''```'' @ [NL] @ ''**x**'' @ [NL] @ ''```''))
   \<and> block_to_block_type (''```'' @ [NL] @ ''**x**'' @ [NL] @ ''```'') = CODE_BLOCK
   \<and> \<not> double_newline (''```'' @ [NL] @ ''**x**'' @ [NL] @ ''```'')
   \<and> strip_one_newline (fence_stripped (''```'' @ [NL] @ ''**x**'' @ [NL] @ ''```'')) = ''**x**''
   \<and> code_block_to_html_node (''```'' @ [NL] @ ''**x**'' @ [NL] @ ''```'') =
        Inr (ParentNode (Some ''pre'')
               (Some [LeafNode (Some ''**x**'') (Some ''code'') None]) None)"
proof -
  have m: "''```'' @ [NL] @ ''**x**'' @ [NL] @ ''```''
     \<in> set (markdown_to_blocks (''intro'' @ [NL, NL] @ ''```'' @ [NL] @ ''**x**'' @ [NL] @ ''```''))"
    by (simp add: markdown_to_blocks_def strip_def isspace_def)
  have c: "block_to_block_type (''```'' @ [NL] @ ''**x**'' @ [NL] @ ''```'') = CODE_BLOCK"
    by (simp add: block_to_block_type_def heading_match_def endswith_def)
  have d: "\<not> double_newline (''```'' @ [NL] @ ''**x**'' @ [NL] @ ''```'')" by simp
  have s: "strip_one_newline (fence_stripped (''```'' @ [NL] @ ''**x**'' @ [NL] @ ''```''))
             = ''**x**''"
    by (simp add: strip_one_newline_def fence_stripped_def endswith_def)
  show ?thesis
    using m c d s
      code_block_to_html_node_segmented
        [of "''```'' @ [NL] @ ''**x**'' @ [NL] @ ''```''"
            "''intro'' @ [NL, NL] @ ''```'' @ [NL] @ ''**x**'' @ [NL] @ ''```''"]
    by simp
qed

subsection \<open>Quote blocks\<close>

lemma dropWhile_weaker:
  "(\<And>c. Q c \<Longrightarrow> P c) \<Longrightarrow> dropWhile Q (dropWhile P xs) = dropWhile P xs"
  by (induction xs) auto

lemma quote_line_all_markers:
  "lstrip_chars ''>'' (lstrip_chars ''> '' line)
     = dropWhile (\<lambda>c. c = CHR ''>'' \<or> c = CHR '' '') line"
proof -
  have "dropWhile (\<lambda>c. c = CHR ''>'') (dropWhile (\<lambda>c. c = CHR ''>'' \<or> c = CHR '' '') line)
          = dropWhile (\<lambda>c. c = CHR ''>'' \<or> c = CHR '' '') line"
    by (rule dropWhile_weaker) simp
  then show ?thesis by (simp add: lstrip_chars_def)
qed

text \<open>
  C1, evaluated. The quote conversion removes every leading \<open>>\<close> and space of a line,
  not one \<open>>\<close> and at most one space: the block \<open>>  two\<close> (two spaces) gives the content
  \<open>two\<close> where the specification keeps one space, and \<open>>> nested\<close> gives \<open>nested\<close>
  where the specification keeps the second \<open>>\<close>.
\<close>

theorem quote_block_strips_every_marker:
  "block_to_block_type ''>  two'' = QUOTE_BLOCK
   \<and> quote_block_to_html_node ''>  two'' =
        Inr (ParentNode (Some ''blockquote'') (Some [LeafNode (Some ''two'') None None]) None)
   \<and> quote_marker_stripped ''>  two'' = '' two''
   \<and> block_to_block_type ''>> nested'' = QUOTE_BLOCK
   \<and> quote_content ''>> nested'' = ''nested''
   \<and> quote_marker_stripped ''>> nested'' = ''> nested''
   \<and> lstrip_chars ''>'' (lstrip_chars ''> '' line)
       = dropWhile (\<lambda>c. c = CHR ''>'' \<or> c = CHR '' '') line"
proof -
  have a: "block_to_block_type ''>  two'' = QUOTE_BLOCK"
    by (simp add: block_to_block_type_def heading_match_def endswith_def)
  have b: "quote_block_to_html_node ''>  two'' =
        Inr (ParentNode (Some ''blockquote'') (Some [LeafNode (Some ''two'') None None]) None)"
    by (simp add: quote_block_to_html_node_def quote_content_def lstrip_chars_def
          wrap_children_def text_to_children_def text_to_textnodes_def
          extract_markdown_links_def)
  have c: "quote_marker_stripped ''>  two'' = '' two''"
    by (simp add: quote_marker_stripped_def)
  have d: "block_to_block_type ''>> nested'' = QUOTE_BLOCK"
    by (simp add: block_to_block_type_def heading_match_def endswith_def)
  have e: "quote_content ''>> nested'' = ''nested''"
    by (simp add: quote_content_def lstrip_chars_def)
  have f: "quote_marker_stripped ''>> nested'' = ''> nested''"
    by (simp add: quote_marker_stripped_def)
  from a b c d e f quote_line_all_markers [of line] show ?thesis by blast
qed

end
